theory Spec2Isabelle
  imports Main "HOL-Library.Word" "HOL-Library.Monad_Syntax"
begin

section \<open>Machine integers, vectors and characters\<close>

text \<open>
  The source computes with \<open>uint32_t\<close> (table entries, the signal, the turnover) and with
  \<open>std::vector<uint32_t>::size_type\<close>, that is \<open>std::size_t\<close> (the length and the
  position of a rotor). Both are unsigned and wrap around; \<open>size_t\<close> is taken to be 64 bits
  wide, as on an LP64 platform.
\<close>

type_synonym u32 = "32 word"
type_synonym size_type = "64 word"

text \<open>
  \<open>std::vector::operator[]\<close> does not check its index. Reading or writing out of range is
  undefined behaviour in the source; the model makes it the value \<open>None\<close>, and every
  function that indexes a vector returns an option. \<open>None\<close> is therefore not an error the
  program reports: it marks a run in which the source indexes outside a vector (or divides
  by a zero length).
\<close>

definition vec_at :: "'a list \<Rightarrow> nat \<Rightarrow> 'a option" where
  "vec_at xs i = (if i < length xs then Some (xs ! i) else None)"

definition vec_put :: "'a list \<Rightarrow> nat \<Rightarrow> 'a \<Rightarrow> 'a list option" where
  "vec_put xs i v = (if i < length xs then Some (xs[i := v]) else None)"

text \<open>
  A \<open>char\<close> is an 8-bit signed value (as with GCC and Clang on x86-64); \<open>char_val\<close> is
  its value after integral promotion. \<open>char_to_u32\<close> is the conversion of a \<open>char\<close> to
  \<open>uint32_t\<close>, and \<open>u32_to_char\<close> the narrowing conversion back.
\<close>

definition char_val :: "char \<Rightarrow> int" where
  "char_val c = (if (of_char c :: int) < 128 then of_char c else of_char c - 256)"

definition char_to_u32 :: "char \<Rightarrow> u32" where
  "char_to_u32 c = word_of_int (char_val c)"

definition u32_to_char :: "u32 \<Rightarrow> char" where
  "u32_to_char w = char_of (unat w)"

section \<open>The wiring tables\<close>

definition ALPHA :: string where
  "ALPHA = ''ABCDEFGHIJKLMNOPQRSTUVWXYZ''"

definition rotors_etw_alpha :: string where
  "rotors_etw_alpha = ''ABCDEFGHIJKLMNOPQRSTUVWXYZ''"

definition rotors_i :: string where
  "rotors_i = ''EKMFLGDQVZNTOWYHXUSPAIBRCJ''"

definition rotors_ukw_b :: string where
  "rotors_ukw_b = ''YRUHQSLDPXNGOKMIEBFZCWVJAT''"

section \<open>make\_notches\<close>

text \<open>
  \<open>make_notches(len, vals)\<close>: a vector of \<open>len\<close> zeros, in which \<open>ret[val] = 1\<close> is
  stored for every \<open>val\<close> of the initializer list, in order.
\<close>

fun make_notches_loop :: "u32 list \<Rightarrow> u32 list \<Rightarrow> u32 list option" where
  "make_notches_loop ret [] = Some ret"
| "make_notches_loop ret (val # vals) =
     do { ret' \<leftarrow> vec_put ret (unat val) 1; make_notches_loop ret' vals }"

definition make_notches :: "u32 \<Rightarrow> u32 list \<Rightarrow> u32 list option" where
  "make_notches len vals = make_notches_loop (replicate (unat len) 0) vals"

section \<open>Rotor\<close>

record Rotor =
  shuffle_fwd :: "u32 list"
  shuffle_bck :: "u32 list"
  notches :: "u32 list"
  len :: size_type
  pos :: size_type

text \<open>
  The constructor \<open>Rotor(shuffle, notches, initial_pos, ring_setting)\<close>. The forward table
  is the wiring string converted to \<open>uint32_t\<close> and then reduced by \<open>'A'\<close>; the backward
  table starts as \<open>shuffle.size()\<close> zeros and the loop stores \<open>shuffle_bck_[elem] = i++\<close>
  for every element of the forward table, with \<open>i\<close> an \<open>unsigned int\<close> counting from 0.
  \<open>ring_setting\<close> is not used by the body.
\<close>

fun fill_bck :: "u32 list \<Rightarrow> u32 \<Rightarrow> u32 list \<Rightarrow> u32 list option" where
  "fill_bck bck i [] = Some bck"
| "fill_bck bck i (elem # elems) =
     do { bck' \<leftarrow> vec_put bck (unat elem) i; fill_bck bck' (i + 1) elems }"

definition Rotor_ctor :: "string \<Rightarrow> u32 list \<Rightarrow> size_type \<Rightarrow> size_type \<Rightarrow> Rotor option" where
  "Rotor_ctor shuffle notches0 initial_pos ring_setting =
     (let fwd0 = map char_to_u32 shuffle;
          fwd = map (\<lambda>ch. ch - 65) fwd0
      in do {
        bck \<leftarrow> fill_bck (replicate (length shuffle) 0) 0 fwd;
        Some \<lparr>shuffle_fwd = fwd, shuffle_bck = bck, notches = notches0,
              len = of_nat (length fwd0), pos = initial_pos\<rparr>
      })"

text \<open>
  \<open>Rotor::rotate\<close> (named \<open>rotate_rotor\<close> here, \<open>rotate\<close> being a list function of
  HOL): \<open>pos_ = (pos_ - turnover) % len_; return notches_[pos_];\<close>. The turnover
  is converted to \<open>size_type\<close>, and the subtraction wraps around at \<open>2 ^ 64\<close> before the
  remainder is taken. The result is the returned notch flag and the updated rotor.
\<close>

definition rotate_rotor :: "Rotor \<Rightarrow> u32 \<Rightarrow> (u32 \<times> Rotor) option" where
  "rotate_rotor r turnover =
     (if len r = 0 then None
      else let pos' = (pos r - ucast turnover) mod len r
           in do { n \<leftarrow> vec_at (notches r) (unat pos'); Some (n, r\<lparr>pos := pos'\<rparr>) })"

definition connect_fwd :: "Rotor \<Rightarrow> u32 \<Rightarrow> u32 option" where
  "connect_fwd r character =
     (if len r = 0 then None
      else vec_at (shuffle_fwd r) (unat ((ucast character + pos r) mod len r)))"

definition connect_bck :: "Rotor \<Rightarrow> u32 \<Rightarrow> u32 option" where
  "connect_bck r character =
     (if len r = 0 then None
      else vec_at (shuffle_bck r) (unat ((ucast character + pos r) mod len r)))"

section \<open>EnigmaMachine\<close>

record EnigmaMachine =
  rotors :: "Rotor list"
  plugboard :: "u32 list"
  etw :: Rotor
  ukw :: Rotor

text \<open>
  The constructor: the entry wheel and the reflector have no notch, the three rotors all
  have the wiring \<open>rotors::i\<close> and a notch at \<open>'Z' - 'A' = 25\<close>, every position is 0, and
  \<open>std::iota\<close> fills the 26-entry plugboard with \<open>0, 1, ..., 25\<close>.
\<close>

definition EnigmaMachine_ctor :: "EnigmaMachine option" where
  "EnigmaMachine_ctor = do {
     n_etw \<leftarrow> make_notches 26 [];
     e \<leftarrow> Rotor_ctor rotors_etw_alpha n_etw 0 0;
     n_ukw \<leftarrow> make_notches 26 [];
     u \<leftarrow> Rotor_ctor rotors_ukw_b n_ukw 0 0;
     n1 \<leftarrow> make_notches 26 [25];
     r1 \<leftarrow> Rotor_ctor rotors_i n1 0 0;
     n2 \<leftarrow> make_notches 26 [25];
     r2 \<leftarrow> Rotor_ctor rotors_i n2 0 0;
     n3 \<leftarrow> make_notches 26 [25];
     r3 \<leftarrow> Rotor_ctor rotors_i n3 0 0;
     Some \<lparr>rotors = [r1, r2, r3], plugboard = map of_nat [0..<26], etw = e, ukw = u\<rparr>
   }"

text \<open>
  \<open>cipher_one\<close>: plugboard, entry wheel forward, the rotors forward in stack order, the
  reflector forward, the rotors backward in reverse stack order, the entry wheel backward,
  the plugboard again. The input is not checked: \<open>scratch = c - 'A'\<close> is computed in
  \<open>int\<close> and converted to \<open>uint32_t\<close>. The diagnostic lines the function prints on the
  way are left out.
\<close>

definition char_index :: "char \<Rightarrow> u32" where
  "char_index c = word_of_int (char_val c - 65)"

fun fwd_pass :: "Rotor list \<Rightarrow> u32 \<Rightarrow> u32 option" where
  "fwd_pass [] scratch = Some scratch"
| "fwd_pass (r # rs) scratch = do { s \<leftarrow> connect_fwd r scratch; fwd_pass rs s }"

fun bck_pass :: "Rotor list \<Rightarrow> u32 \<Rightarrow> u32 option" where
  "bck_pass [] scratch = Some scratch"
| "bck_pass (r # rs) scratch = do { s \<leftarrow> connect_bck r scratch; bck_pass rs s }"

definition cipher_one :: "EnigmaMachine \<Rightarrow> char \<Rightarrow> char option" where
  "cipher_one m c = do {
     s1 \<leftarrow> vec_at (plugboard m) (unat (char_index c));
     s2 \<leftarrow> connect_fwd (etw m) s1;
     s3 \<leftarrow> fwd_pass (rotors m) s2;
     s4 \<leftarrow> connect_fwd (ukw m) s3;
     s5 \<leftarrow> bck_pass (rev (rotors m)) s4;
     s6 \<leftarrow> connect_bck (etw m) s5;
     s7 \<leftarrow> vec_at (plugboard m) (unat s6);
     Some (u32_to_char (s7 + 65))
   }"

text \<open>
  \<open>keydown\<close>: \<open>rotated\<close> starts at 1 and every rotor, in stack order, is rotated with the
  value its predecessor returned.
\<close>

fun keydown_loop :: "u32 \<Rightarrow> Rotor list \<Rightarrow> Rotor list option" where
  "keydown_loop rotated [] = Some []"
| "keydown_loop rotated (r # rs) =
     do { (rotated', r') \<leftarrow> rotate_rotor r rotated;
          rs' \<leftarrow> keydown_loop rotated' rs;
          Some (r' # rs') }"

definition keydown :: "EnigmaMachine \<Rightarrow> EnigmaMachine option" where
  "keydown m = do { rs \<leftarrow> keydown_loop 1 (rotors m); Some (m\<lparr>rotors := rs\<rparr>) }"

text \<open>\<open>n\<close> calls of \<open>keydown\<close> in a row.\<close>

fun keydown_n :: "nat \<Rightarrow> EnigmaMachine \<Rightarrow> EnigmaMachine option" where
  "keydown_n 0 m = Some m"
| "keydown_n (Suc n) m = do { m' \<leftarrow> keydown m; keydown_n n m' }"

section \<open>main\<close>

text \<open>
  \<open>main\<close> constructs the machine, calls \<open>keydown\<close> once, and then loops while the input
  stream is good: extract a character, \<open>keydown\<close>, print \<open>cipher_one(c)\<close>. The input is
  the list of characters that \<open>std::cin >> c\<close> extracts (the stream skips white space).
  When the input is exhausted the extraction fails and leaves \<open>c\<close> as it was; the body
  still runs to its end, on the character of the previous iteration, and only then is the
  loop condition false. With no input at all \<open>c\<close> is read uninitialised (\<open>None\<close>).
  The result is, for every iteration of the loop, the machine after its \<open>keydown\<close> (the
  state the character is enciphered in) and the character printed.
\<close>

definition loop_body :: "EnigmaMachine \<Rightarrow> char \<Rightarrow> (EnigmaMachine \<times> char) option" where
  "loop_body m c = do { m' \<leftarrow> keydown m; out \<leftarrow> cipher_one m' c; Some (m', out) }"

fun read_loop :: "EnigmaMachine \<Rightarrow> char option \<Rightarrow> string \<Rightarrow> (EnigmaMachine \<times> char) list option" where
  "read_loop m c [] =
     (case c of None \<Rightarrow> None | Some c' \<Rightarrow> do { s \<leftarrow> loop_body m c'; Some [s] })"
| "read_loop m c (x # xs) =
     do { s \<leftarrow> loop_body m x; tr \<leftarrow> read_loop (fst s) (Some x) xs; Some (s # tr) }"

definition main :: "string \<Rightarrow> (EnigmaMachine \<times> char) list option" where
  "main input = do { machine \<leftarrow> EnigmaMachine_ctor; m \<leftarrow> keydown machine; read_loop m None input }"

section \<open>The constructed machine\<close>

text \<open>
  \<open>machine0\<close> is the machine the constructor builds (\<open>EnigmaMachine_ctor_machine0\<close>
  below), \<open>set_positions\<close> the same machine with its rotors turned to the given positions,
  and \<open>rotor_I p\<close> its first rotor at position \<open>p\<close>.
\<close>

definition machine0 :: EnigmaMachine where
  "machine0 = the EnigmaMachine_ctor"

definition set_positions :: "EnigmaMachine \<Rightarrow> size_type list \<Rightarrow> EnigmaMachine" where
  "set_positions m ps = m\<lparr>rotors := map2 (\<lambda>r p. r\<lparr>pos := p\<rparr>) (rotors m) ps\<rparr>"

definition rotor_I :: "size_type \<Rightarrow> Rotor" where
  "rotor_I p = (hd (rotors machine0))\<lparr>pos := p\<rparr>"

text \<open>
  The states of the machine that the program can be in: the constructed machine and
  whatever \<open>keydown\<close> makes of a reachable state.
\<close>

inductive reachable :: "EnigmaMachine \<Rightarrow> bool" where
  reachable_ctor: "EnigmaMachine_ctor = Some m \<Longrightarrow> reachable m"
| reachable_keydown: "reachable m \<Longrightarrow> keydown m = Some m' \<Longrightarrow> reachable m'"

text \<open>
  What the in-range proofs need of a machine: every rotor, the entry wheel and the
  reflector have length 26 and tables of 26 entries, the plugboard has 26 entries, and the
  entry wheel's backward table holds alphabet indices (its output indexes the plugboard).
\<close>

definition rotor_ok :: "Rotor \<Rightarrow> bool" where
  "rotor_ok r \<longleftrightarrow>
     len r = 26 \<and> length (shuffle_fwd r) = 26 \<and> length (shuffle_bck r) = 26 \<and>
     length (notches r) = 26"

definition machine_ok :: "EnigmaMachine \<Rightarrow> bool" where
  "machine_ok m \<longleftrightarrow>
     list_all rotor_ok (rotors m) \<and> rotor_ok (etw m) \<and> rotor_ok (ukw m) \<and>
     length (plugboard m) = 26 \<and> list_all (\<lambda>x. x < 26) (shuffle_bck (etw m))"

text \<open>
  The entry of the forward table that the constructor computes for a wiring symbol:
  the symbol converted to \<open>uint32_t\<close>, minus \<open>'A'\<close>.
\<close>

definition wiring_index :: "char \<Rightarrow> u32" where
  "wiring_index c = char_to_u32 c - 65"

section \<open>The constructor's result\<close>

lemma EnigmaMachine_ctor_machine0: "EnigmaMachine_ctor = Some machine0"
  by code_simp

lemma machine0_tables:
  "machine0 =
     \<lparr>rotors = [rotor_I 0, rotor_I 0, rotor_I 0],
      plugboard = [0, 1, 2, 3, 4, 5, 6, 7, 8, 9, 10, 11, 12, 13, 14, 15, 16, 17, 18, 19, 20,
                   21, 22, 23, 24, 25],
      etw = \<lparr>shuffle_fwd = [0, 1, 2, 3, 4, 5, 6, 7, 8, 9, 10, 11, 12, 13, 14, 15, 16, 17, 18,
                            19, 20, 21, 22, 23, 24, 25],
             shuffle_bck = [0, 1, 2, 3, 4, 5, 6, 7, 8, 9, 10, 11, 12, 13, 14, 15, 16, 17, 18,
                            19, 20, 21, 22, 23, 24, 25],
             notches = replicate 26 0, len = 26, pos = 0\<rparr>,
      ukw = \<lparr>shuffle_fwd = [24, 17, 20, 7, 16, 18, 11, 3, 15, 23, 13, 6, 14, 10, 12, 8, 4, 1,
                            5, 25, 2, 22, 21, 9, 0, 19],
             shuffle_bck = [24, 17, 20, 7, 16, 18, 11, 3, 15, 23, 13, 6, 14, 10, 12, 8, 4, 1,
                            5, 25, 2, 22, 21, 9, 0, 19],
             notches = replicate 26 0, len = 26, pos = 0\<rparr>\<rparr>"
  by code_simp

lemma rotor_I_tables:
  "rotor_I p =
     \<lparr>shuffle_fwd = [4, 10, 12, 5, 11, 6, 3, 16, 21, 25, 13, 19, 14, 22, 24, 7, 23, 20, 18,
                     15, 0, 8, 1, 17, 2, 9],
      shuffle_bck = [20, 22, 24, 6, 0, 3, 5, 15, 21, 25, 1, 4, 2, 10, 12, 19, 7, 23, 18, 11,
                     17, 8, 13, 16, 14, 9],
      notches = replicate 25 0 @ [1], len = 26, pos = p\<rparr>"
proof -
  have "rotor_I 0 =
     \<lparr>shuffle_fwd = [4, 10, 12, 5, 11, 6, 3, 16, 21, 25, 13, 19, 14, 22, 24, 7, 23, 20, 18,
                     15, 0, 8, 1, 17, 2, 9],
      shuffle_bck = [20, 22, 24, 6, 0, 3, 5, 15, 21, 25, 1, 4, 2, 10, 12, 19, 7, 23, 18, 11,
                     17, 8, 13, 16, 14, 9],
      notches = replicate 25 0 @ [1], len = 26, pos = 0\<rparr>"
    by code_simp
  moreover have "rotor_I p = (rotor_I 0)\<lparr>pos := p\<rparr>"
    by (simp add: rotor_I_def)
  ultimately show ?thesis by simp
qed

lemma reachable_machine0: "reachable machine0"
  by (rule reachable_ctor) (rule EnigmaMachine_ctor_machine0)

section \<open>Stepping\<close>

text \<open>
  C3 (code defect). \<open>rotate\<close> is to decrement the position by the turnover modulo the
  alphabet length, so that position 0 with turnover 1 wraps to 25. In the source the
  subtraction is done in the unsigned \<open>size_type\<close>: \<open>0 - 1\<close> is \<open>2 ^ 64 - 1\<close>, whose
  remainder modulo 26 is 15. The first rotor of the constructed machine, at position 0
  and told to turn, ends at position 15, not 25.
\<close>

theorem rotate_from_zero_lands_on_15:
  "pos (rotor_I 0) = 0 \<and> len (rotor_I 0) = 26 \<and>
   rotate_rotor (rotor_I 0) 1 = Some (0, (rotor_I 0)\<lparr>pos := 15\<rparr>)"
  by code_simp

text \<open>
  C6 (code defect, the one of C3). The first call of \<open>keydown\<close> on the constructed
  machine, whose rotors are all at position 0, leaves the first rotor at position 15:
  it has not moved by one step modulo 26, which would be position 25.
\<close>

theorem keydown_first_rotor_jumps:
  "map pos (rotors machine0) = [0, 0, 0] \<and>
   map_option (map pos \<circ> rotors) (keydown machine0) = Some [15, 0, 0]"
  by code_simp

section \<open>Round trips\<close>

text \<open>
  C2 (code defect). \<open>connect_bck\<close> is to undo \<open>connect_fwd\<close> at the same position. Both
  add the position to their input before the table lookup and neither takes it off the
  output, so the round trip is the identity at position 0 but not in general. The first
  rotor after the first \<open>keydown\<close> (position 15) sends 0 forward to 7 and 7 backward
  to 13.
\<close>

theorem rotor_round_trip_fails_at_15:
  "connect_fwd (rotor_I 15) 0 = Some 7 \<and> connect_bck (rotor_I 15) 7 = Some 13"
  by code_simp

text \<open>
  C1 (code defect, the one of C2). In the state in which \<open>main\<close> enciphers its first
  character (two calls of \<open>keydown\<close> after construction, rotor positions 14, 0, 0),
  \<open>A\<close> is enciphered to \<open>H\<close>, and \<open>H\<close> in the same state to \<open>J\<close>, not back to \<open>A\<close>.
\<close>

theorem cipher_one_not_reciprocal:
  "keydown_n 2 machine0 = Some (set_positions machine0 [14, 0, 0]) \<and>
   cipher_one (set_positions machine0 [14, 0, 0]) CHR ''A'' = Some CHR ''H'' \<and>
   cipher_one (set_positions machine0 [14, 0, 0]) CHR ''H'' = Some CHR ''J''"
  by code_simp

section \<open>Lookups stay in range\<close>

lemma alpha_index: "list_all (\<lambda>c. unat (char_index c) < 26) ALPHA" by code_simp

lemma unat_mod_26: "unat (x mod 26 :: size_type) < 26"
proof -
  have "x mod 26 < 26" by (rule word_mod_less_divisor) simp
  then show ?thesis by (simp add: word_less_nat_alt)
qed

lemma rotate_rotor_ok:
  assumes "rotor_ok r"
  shows "rotate_rotor r t = Some (notches r ! unat ((pos r - ucast t) mod 26), r\<lparr>pos := (pos r - ucast t) mod 26\<rparr>)"
  using assms unat_mod_26 [of "pos r - ucast t"]
  by (simp add: rotor_ok_def rotate_rotor_def vec_at_def Let_def)

lemma rotor_ok_pos: "rotor_ok (r\<lparr>pos := p\<rparr>) = rotor_ok r"
  by (simp add: rotor_ok_def)

lemma connect_fwd_ok:
  assumes "rotor_ok r"
  shows "connect_fwd r x = Some (shuffle_fwd r ! unat ((ucast x + pos r) mod 26))"
  using assms unat_mod_26 [of "ucast x + pos r"]
  by (simp add: rotor_ok_def connect_fwd_def vec_at_def)

lemma connect_bck_ok:
  assumes "rotor_ok r"
  shows "connect_bck r x = Some (shuffle_bck r ! unat ((ucast x + pos r) mod 26))"
  using assms unat_mod_26 [of "ucast x + pos r"]
  by (simp add: rotor_ok_def connect_bck_def vec_at_def)

lemma keydown_loop_ok:
  "list_all rotor_ok rs \<Longrightarrow> \<exists>rs'. keydown_loop t rs = Some rs' \<and> list_all rotor_ok rs'"
proof (induction rs arbitrary: t)
  case Nil
  then show ?case by simp
next
  case (Cons r rs)
  from Cons.prems have r: "rotor_ok r" and rs: "list_all rotor_ok rs" by simp_all
  from Cons.IH [OF rs] obtain rs' where
    "keydown_loop (notches r ! unat ((pos r - ucast t) mod 26)) rs = Some rs'" "list_all rotor_ok rs'"
    by blast
  then show ?case using r by (simp add: rotate_rotor_ok rotor_ok_pos)
qed

lemma keydown_ok:
  assumes "machine_ok m"
  shows "\<exists>m'. keydown m = Some m' \<and> machine_ok m'"
proof -
  from assms have "list_all rotor_ok (rotors m)" by (simp add: machine_ok_def)
  then obtain rs' where "keydown_loop 1 (rotors m) = Some rs'" "list_all rotor_ok rs'"
    using keydown_loop_ok by blast
  then show ?thesis using assms by (simp add: keydown_def machine_ok_def)
qed

lemma fwd_pass_ok: "list_all rotor_ok rs \<Longrightarrow> \<exists>y. fwd_pass rs x = Some y"
  by (induction rs arbitrary: x) (simp_all add: connect_fwd_ok)

lemma bck_pass_ok: "list_all rotor_ok rs \<Longrightarrow> \<exists>y. bck_pass rs x = Some y"
  by (induction rs arbitrary: x) (simp_all add: connect_bck_ok)

lemma cipher_one_ok:
  assumes ok: "machine_ok m" and c: "c \<in> set ALPHA"
  shows "\<exists>d. cipher_one m c = Some d"
proof -
  from c alpha_index have i: "unat (char_index c) < 26" unfolding list_all_iff by blast
  from ok have e: "rotor_ok (etw m)" and u: "rotor_ok (ukw m)" and rs: "list_all rotor_ok (rotors m)"
    and p: "length (plugboard m) = 26" and b: "list_all (\<lambda>x. x < 26) (shuffle_bck (etw m))"
    by (simp_all add: machine_ok_def)
  from rs have rrs: "list_all rotor_ok (rev (rotors m))" by (simp add: list_all_iff)
  define s1 where "s1 = plugboard m ! unat (char_index c)"
  define s2 where "s2 = shuffle_fwd (etw m) ! unat ((ucast s1 + pos (etw m)) mod 26)"
  obtain s3 where s3: "fwd_pass (rotors m) s2 = Some s3" using fwd_pass_ok [OF rs] by blast
  define s4 where "s4 = shuffle_fwd (ukw m) ! unat ((ucast s3 + pos (ukw m)) mod 26)"
  obtain s5 where s5: "bck_pass (rev (rotors m)) s4 = Some s5" using bck_pass_ok [OF rrs] by blast
  define s6 where "s6 = shuffle_bck (etw m) ! unat ((ucast s5 + pos (etw m)) mod 26)"
  have "unat ((ucast s5 + pos (etw m)) mod 26) < length (shuffle_bck (etw m))"
    using e unat_mod_26 [of "ucast s5 + pos (etw m)"] by (simp add: rotor_ok_def)
  then have "s6 \<in> set (shuffle_bck (etw m))" unfolding s6_def by (rule nth_mem)
  with b have "s6 < 26" unfolding list_all_iff by blast
  then have s6: "unat s6 < 26" by (simp add: word_less_nat_alt)
  show ?thesis
    unfolding cipher_one_def
    using i p s3 s5 s6
    by (simp add: vec_at_def connect_fwd_ok [OF e] connect_fwd_ok [OF u] connect_bck_ok [OF e]
        s1_def [symmetric] s2_def [symmetric] s4_def [symmetric] s6_def [symmetric])
qed

lemma machine0_ok: "machine_ok machine0"
  by code_simp

lemma reachable_ok: "reachable m \<Longrightarrow> machine_ok m"
proof (induction rule: reachable.induct)
  case (reachable_ctor m)
  then show ?case using machine0_ok by (simp add: EnigmaMachine_ctor_machine0)
next
  case (reachable_keydown m m')
  then show ?case using keydown_ok by fastforce
qed

text \<open>
  C9. In every state reachable from the constructed machine by calls of \<open>keydown\<close>, and
  for every character of the alphabet, \<open>keydown\<close> and \<open>cipher_one\<close> return a value. In
  the model every vector access of the two functions goes through \<open>vec_at\<close>, whose result
  is \<open>None\<close> out of range, and a \<open>None\<close> is passed on to the result: so a result
  \<open>Some\<close> says that the notch lookup of every \<open>rotate\<close>, every forward and backward
  table lookup and both plugboard lookups were in range. The proof is the one the claim
  gives: every rotor index is a remainder modulo the length 26 (\<open>unat_mod_26\<close>).
\<close>

theorem lookups_in_bounds:
  assumes "reachable m" and "c \<in> set ALPHA"
  shows "(\<exists>m'. keydown m = Some m' \<and> reachable m') \<and> (\<exists>d. cipher_one m c = Some d)"
proof -
  from assms(1) have ok: "machine_ok m" by (rule reachable_ok)
  then obtain m' where k: "keydown m = Some m'" using keydown_ok by blast
  with assms(1) have "reachable m'" by (rule reachable_keydown)
  with k cipher_one_ok [OF ok assms(2)] show ?thesis by blast
qed

theorem lookups_in_bounds_witness:
  "reachable machine0 \<and> CHR ''Q'' \<in> set ALPHA \<and>
   (\<exists>m'. keydown machine0 = Some m' \<and> reachable m') \<and>
   (\<exists>d. cipher_one machine0 CHR ''Q'' = Some d)"
proof -
  have q: "CHR ''Q'' \<in> set ALPHA" by (simp add: ALPHA_def)
  from lookups_in_bounds [OF reachable_machine0 q] reachable_machine0 q
  show ?thesis by blast
qed

section \<open>Characters outside the alphabet\<close>

lemma alpha_chars: "list_all (\<lambda>n. char_of n \<in> set ALPHA) [65..<91]" by code_simp

lemma in_ALPHA_iff: "c \<in> set ALPHA \<longleftrightarrow> 65 \<le> (of_char c :: nat) \<and> (of_char c :: nat) \<le> 90"
proof
  assume "c \<in> set ALPHA"
  moreover have "list_all (\<lambda>c. 65 \<le> (of_char c :: nat) \<and> (of_char c :: nat) \<le> 90) ALPHA" by code_simp
  ultimately show "65 \<le> (of_char c :: nat) \<and> (of_char c :: nat) \<le> 90" unfolding list_all_iff by blast
next
  assume "65 \<le> (of_char c :: nat) \<and> (of_char c :: nat) \<le> 90"
  then have "(of_char c :: nat) \<in> {65..<91}" by simp
  then have "(of_char c :: nat) \<in> set [65..<91]" by (simp only: set_upt)
  with alpha_chars have "char_of (of_char c :: nat) \<in> set ALPHA" unfolding list_all_iff by blast
  then show "c \<in> set ALPHA" by simp
qed

lemma neg_mod_2_32: "- 4294967296 \<le> k \<Longrightarrow> k < 0 \<Longrightarrow> k mod 4294967296 = k + (4294967296::int)"
proof -
  assume a: "- 4294967296 \<le> k" "k < 0"
  have "k mod 4294967296 = (k + 4294967296) mod 4294967296" by simp
  also have "\<dots> = k + 4294967296" using a by (intro mod_pos_pos_trivial) simp_all
  finally show ?thesis .
qed

lemma unat_char_index: "unat (char_index c) = nat ((char_val c - 65) mod 4294967296)"
proof -
  have "uint (char_index c) = (char_val c - 65) mod 2 ^ LENGTH(32)"
    unfolding char_index_def by (rule uint_word_of_int)
  moreover have "(2::int) ^ LENGTH(32) = 4294967296" by simp
  moreover have "unat (char_index c) = nat (uint (char_index c))" by (rule unat_eq_nat_uint)
  ultimately show ?thesis by (simp only:)
qed

lemma char_index_outside:
  assumes "c \<notin> set ALPHA" shows "26 \<le> unat (char_index c)"
proof -
  define n where "n = (of_char c :: nat)"
  have n: "n < 256" unfolding n_def by simp
  have out: "n < 65 \<or> 90 < n" using assms unfolding in_ALPHA_iff n_def by auto
  have oc: "(of_char c :: int) = int n" unfolding n_def by (simp add: of_char_def)
  consider (low) "n < 65" | (mid) "90 < n" "n < 128" | (high) "128 \<le> n" using out by linarith
  then have "26 \<le> (char_val c - 65) mod 4294967296"
  proof cases
    case low
    then have e: "char_val c - 65 = int n - 65" by (simp add: char_val_def oc)
    have m: "(int n - 65) mod 4294967296 = int n - 65 + 4294967296"
      using low by (intro neg_mod_2_32) simp_all
    show ?thesis unfolding e m by simp
  next
    case mid
    then have e: "char_val c - 65 = int n - 65" by (simp add: char_val_def oc)
    have m: "(int n - 65) mod 4294967296 = int n - 65"
      using mid by (intro mod_pos_pos_trivial) simp_all
    show ?thesis unfolding e m using mid by simp
  next
    case high
    then have e: "char_val c - 65 = int n - 321" by (simp add: char_val_def oc)
    have m: "(int n - 321) mod 4294967296 = int n - 321 + 4294967296"
      using n by (intro neg_mod_2_32) simp_all
    show ?thesis unfolding e m by simp
  qed
  then show ?thesis unfolding unat_char_index by simp
qed

text \<open>
  C8 (counterexample). \<open>cipher_one\<close> has no check of its argument. For the lower-case
  letter \<open>a\<close> the index is \<open>'a' - 'A' = 32\<close>, and the first thing the function does with
  it is the lookup \<open>plugboard_[32]\<close> in a vector of 26 entries: the out-of-range lookup
  the claim excludes. Nothing is rejected or reported.
\<close>

theorem cipher_one_lowercase_out_of_range:
  "unat (char_index CHR ''a'') = 32 \<and> length (plugboard machine0) = 26 \<and>
   vec_at (plugboard machine0) (unat (char_index CHR ''a'')) = None \<and>
   cipher_one machine0 CHR ''a'' = None"
  by code_simp

text \<open>
  C8 (amended). In every reachable state and for every character outside \<open>A\<close> .. \<open>Z\<close>,
  \<open>cipher_one\<close> indexes the 26-entry plugboard at \<open>(c - 'A') mod 2 ^ 32\<close>, which is at
  least 26: an out-of-range lookup, undefined in the source, and not an error result.
\<close>

theorem cipher_one_unchecked:
  assumes "reachable m" and "c \<notin> set ALPHA"
  shows "length (plugboard m) = 26 \<and> 26 \<le> unat (char_index c) \<and>
         vec_at (plugboard m) (unat (char_index c)) = None \<and> cipher_one m c = None"
proof -
  from assms(1) have "machine_ok m" by (rule reachable_ok)
  then have p: "length (plugboard m) = 26" by (simp add: machine_ok_def)
  from assms(2) have i: "26 \<le> unat (char_index c)" by (rule char_index_outside)
  from p i have v: "vec_at (plugboard m) (unat (char_index c)) = None"
    by (simp add: vec_at_def)
  then have "cipher_one m c = None" by (simp add: cipher_one_def)
  with p i v show ?thesis by simp
qed

theorem cipher_one_unchecked_witness:
  "reachable machine0 \<and> CHR ''7'' \<notin> set ALPHA \<and> length (plugboard machine0) = 26 \<and>
   26 \<le> unat (char_index CHR ''7'') \<and> cipher_one machine0 CHR ''7'' = None"
proof -
  have h: "CHR ''7'' \<notin> set ALPHA" by (simp add: ALPHA_def)
  from cipher_one_unchecked [OF reachable_machine0 h] reachable_machine0 h
  show ?thesis by simp
qed

section \<open>The reflector\<close>

lemma u32_below_26: "x < (26::u32) \<Longrightarrow> x \<in> set (map of_nat [0..<26])"
proof -
  assume "x < 26"
  then have "unat x < 26" by (simp add: word_less_nat_alt)
  moreover have "x = of_nat (unat x)" by simp
  ultimately show ?thesis by (metis (no_types) atLeastLessThan_iff image_eqI set_map set_upt zero_le)
qed

lemma reflector_table:
  "list_all (\<lambda>x. case connect_fwd (ukw machine0) x of None \<Rightarrow> False
      | Some y \<Rightarrow> y \<noteq> x \<and> connect_fwd (ukw machine0) y = Some x) (map of_nat [0..<26])"
  by code_simp

text \<open>
  C5. The reflector of the constructed machine stands at position 0, and its forward
  mapping is an involution without fixed point on the indices 0 .. 25: every index
  \<open>x\<close> is sent to some \<open>y \<noteq> x\<close>, and \<open>y\<close> back to \<open>x\<close>.
\<close>

theorem reflector_involution:
  assumes "x < 26"
  shows "pos (ukw machine0) = 0 \<and>
         (\<exists>y. connect_fwd (ukw machine0) x = Some y \<and> y \<noteq> x \<and>
              connect_fwd (ukw machine0) y = Some x)"
proof -
  from assms have "x \<in> set (map of_nat [0..<26])" by (rule u32_below_26)
  with reflector_table
  have "case connect_fwd (ukw machine0) x of None \<Rightarrow> False
      | Some y \<Rightarrow> y \<noteq> x \<and> connect_fwd (ukw machine0) y = Some x"
    unfolding list_all_iff by blast
  moreover have "pos (ukw machine0) = 0" by code_simp
  ultimately show ?thesis by (auto split: option.splits)
qed

theorem reflector_involution_witness:
  "(3::u32) < 26 \<and> pos (ukw machine0) = 0 \<and>
   connect_fwd (ukw machine0) 3 = Some 7 \<and> connect_fwd (ukw machine0) 7 = Some 3"
proof -
  have h: "(3::u32) < 26" by simp
  have v: "connect_fwd (ukw machine0) 3 = Some 7" by code_simp
  from reflector_involution [OF h] v show ?thesis by auto
qed

section \<open>The tables a Rotor is constructed with\<close>

lemma fill_bck_last:
  assumes "\<forall>e\<in>set es. unat e < length bck"
  shows "\<exists>bck'. fill_bck bck i es = Some bck' \<and> length bck' = length bck \<and>
           (\<forall>k<length es. (\<forall>j. k < j \<and> j < length es \<longrightarrow> es ! j \<noteq> es ! k) \<longrightarrow>
              bck' ! unat (es ! k) = i + of_nat k) \<and>
           (\<forall>j<length bck. j \<notin> unat ` set es \<longrightarrow> bck' ! j = bck ! j)"
  using assms
proof (induction es arbitrary: bck i)
  case Nil
  then show ?case by simp
next
  case (Cons e es)
  let ?b = "bck[unat e := i]"
  from Cons.prems have le: "unat e < length bck"
    and r: "\<forall>e'\<in>set es. unat e' < length ?b" by simp_all
  from Cons.IH [OF r, of "i + 1"] obtain bck' where
    f: "fill_bck ?b (i + 1) es = Some bck'" and l: "length bck' = length bck"
    and v: "\<And>k. k < length es \<Longrightarrow> (\<forall>j. k < j \<and> j < length es \<longrightarrow> es ! j \<noteq> es ! k) \<Longrightarrow>
              bck' ! unat (es ! k) = i + 1 + of_nat k"
    and u: "\<And>j. j < length bck \<Longrightarrow> j \<notin> unat ` set es \<Longrightarrow> bck' ! j = ?b ! j"
    by auto
  have s: "fill_bck bck i (e # es) = Some bck'" using f le by (simp add: vec_put_def)
  have vs: "bck' ! unat ((e # es) ! k) = i + of_nat k"
    if k: "k < length (e # es)"
    and late: "\<forall>j. k < j \<and> j < length (e # es) \<longrightarrow> (e # es) ! j \<noteq> (e # es) ! k" for k
  proof (cases k)
    case 0
    have "e \<notin> set es"
    proof
      assume "e \<in> set es"
      then obtain j where j: "j < length es" "es ! j = e" by (auto simp: in_set_conv_nth)
      with late 0 have "(e # es) ! Suc j \<noteq> e" by auto
      with j(2) show False by simp
    qed
    have "unat e \<notin> unat ` set es"
    proof
      assume "unat e \<in> unat ` set es"
      then obtain x where x: "x \<in> set es" "unat e = unat x" by blast
      from x(2) have "e = x" by (simp add: word_unat_eq_iff)
      with x(1) \<open>e \<notin> set es\<close> show False by simp
    qed
    with u [OF le] le have "bck' ! unat e = i" by simp
    with 0 show ?thesis by simp
  next
    case (Suc k')
    with k have k': "k' < length es" by simp
    have "\<forall>j. k' < j \<and> j < length es \<longrightarrow> es ! j \<noteq> es ! k'"
    proof (intro allI impI)
      fix j assume "k' < j \<and> j < length es"
      then have "k < Suc j \<and> Suc j < length (e # es)" using Suc by simp
      with late have "(e # es) ! Suc j \<noteq> (e # es) ! k" by blast
      then show "es ! j \<noteq> es ! k'" using Suc by simp
    qed
    from v [OF k' this] Suc show ?thesis by simp
  qed
  have us: "bck' ! j = bck ! j" if "j < length bck" "j \<notin> unat ` set (e # es)" for j
    using u [OF that(1)] that(2) by simp
  from s l vs us show ?case by blast
qed

lemma fill_bck_distinct:
  assumes "distinct es" and "\<forall>e\<in>set es. unat e < length bck"
  shows "\<exists>bck'. fill_bck bck i es = Some bck' \<and> length bck' = length bck \<and>
           (\<forall>k<length es. bck' ! unat (es ! k) = i + of_nat k) \<and>
           (\<forall>j<length bck. j \<notin> unat ` set es \<longrightarrow> bck' ! j = bck ! j)"
  using assms
proof (induction es arbitrary: bck i)
  case Nil
  then show ?case by simp
next
  case (Cons e es)
  let ?b = "bck[unat e := i]"
  from Cons.prems have d: "distinct es" and e: "e \<notin> set es" and le: "unat e < length bck"
    and r: "\<forall>e'\<in>set es. unat e' < length ?b" by simp_all
  from Cons.IH [OF d r, of "i + 1"] obtain bck' where
    f: "fill_bck ?b (i + 1) es = Some bck'" and l: "length bck' = length bck"
    and v: "\<And>k. k < length es \<Longrightarrow> bck' ! unat (es ! k) = i + 1 + of_nat k"
    and u: "\<And>j. j < length bck \<Longrightarrow> j \<notin> unat ` set es \<Longrightarrow> bck' ! j = ?b ! j"
    by auto
  have s: "fill_bck bck i (e # es) = Some bck'" using f le by (simp add: vec_put_def)
  have "unat e \<notin> unat ` set es"
  proof
    assume "unat e \<in> unat ` set es"
    then obtain x where x: "x \<in> set es" "unat e = unat x" by blast
    from x(2) have "e = x" by (simp add: word_unat_eq_iff)
    with x(1) e show False by simp
  qed
  with u [OF le] le have v0: "bck' ! unat e = i" by simp
  have vs: "bck' ! unat ((e # es) ! k) = i + of_nat k" if "k < length (e # es)" for k
  proof (cases k)
    case 0
    with v0 show ?thesis by simp
  next
    case (Suc k')
    with that have "k' < length es" by simp
    from v [OF this] Suc show ?thesis by simp
  qed
  have us: "bck' ! j = bck ! j" if "j < length bck" "j \<notin> unat ` set (e # es)" for j
    using u [OF that(1)] that(2) by simp
  from s l vs us show ?case by blast
qed

lemma ALPHA_indices: "map (\<lambda>c. unat (wiring_index c)) ALPHA = [0..<26]"
  by code_simp

lemma length_ALPHA: "length ALPHA = 26"
  by (simp add: ALPHA_def)

lemma distinct_ALPHA: "distinct ALPHA"
proof -
  have "distinct (map (\<lambda>c. unat (wiring_index c)) ALPHA)" unfolding ALPHA_indices by simp
  then show ?thesis by (simp add: distinct_map)
qed

lemma inj_on_ALPHA: "inj_on (\<lambda>c. unat (wiring_index c)) (set ALPHA)"
proof -
  have "distinct (map (\<lambda>c. unat (wiring_index c)) ALPHA)" unfolding ALPHA_indices by simp
  then show ?thesis by (simp add: distinct_map)
qed

lemma image_ALPHA: "(\<lambda>c. unat (wiring_index c)) ` set ALPHA = {0..<26}"
proof -
  have "set (map (\<lambda>c. unat (wiring_index c)) ALPHA) = set [0..<26]" by (simp only: ALPHA_indices)
  then show ?thesis by (simp only: set_map set_upt)
qed

lemma Rotor_ctor_fill:
  "Rotor_ctor shuffle ns p rs =
     map_option (\<lambda>bck. \<lparr>shuffle_fwd = map wiring_index shuffle, shuffle_bck = bck, notches = ns,
                        len = of_nat (length shuffle), pos = p\<rparr>)
       (fill_bck (replicate (length shuffle) 0) 0 (map wiring_index shuffle))"
proof -
  have m: "map (\<lambda>ch. ch - 65) (map char_to_u32 shuffle) = map wiring_index shuffle"
    by (simp add: wiring_index_def)
  show ?thesis
    unfolding Rotor_ctor_def Let_def m
    by (cases "fill_bck (replicate (length shuffle) 0) 0 (map wiring_index shuffle)") simp_all
qed

text \<open>
  C4. For a wiring string of length 26 in which every letter of the alphabet occurs (a
  permutation of \<open>A\<close> .. \<open>Z\<close>), the constructor returns a rotor whose tables have 26
  entries, whose forward table is a bijection on the indices 0 .. 25, and whose backward
  table is its inverse, on both sides: \<open>backward[forward[i]] = i\<close> and
  \<open>forward[backward[j]] = j\<close>.
\<close>

theorem Rotor_ctor_permutation:
  assumes len: "length shuffle = 26" and perm: "set shuffle = set ALPHA"
  shows "\<exists>r. Rotor_ctor shuffle ns p rs = Some r \<and>
           length (shuffle_fwd r) = 26 \<and> length (shuffle_bck r) = 26 \<and>
           bij_betw (\<lambda>i. unat (shuffle_fwd r ! i)) {0..<26} {0..<26} \<and>
           (\<forall>i<26. unat (shuffle_bck r ! unat (shuffle_fwd r ! i)) = i) \<and>
           (\<forall>j<26. unat (shuffle_fwd r ! unat (shuffle_bck r ! j)) = j)"
proof -
  let ?g = "\<lambda>c. unat (wiring_index c)"
  define fwd where "fwd = map wiring_index shuffle"
  have lf: "length fwd = 26" by (simp add: fwd_def len)
  have "card (set shuffle) = length shuffle"
    using distinct_card [OF distinct_ALPHA] by (simp add: perm len length_ALPHA)
  then have ds: "distinct shuffle" by (rule card_distinct)
  have mu: "map unat fwd = map ?g shuffle" by (simp add: fwd_def)
  have "distinct (map ?g shuffle)"
    using ds inj_on_ALPHA by (simp add: distinct_map perm)
  then have du: "distinct (map unat fwd)" by (simp only: mu)
  then have df: "distinct fwd" by (simp add: distinct_map)
  have su: "set (map unat fwd) = {0..<26}"
    unfolding mu using image_ALPHA by (simp add: perm)
  have rng: "\<forall>e\<in>set fwd. unat e < length (replicate (length shuffle) (0::u32))"
    using su by (auto simp: len)
  from fill_bck_distinct [OF df rng, of 0] obtain bck where
    f: "fill_bck (replicate (length shuffle) 0) 0 fwd = Some bck" and lb: "length bck = 26"
    and v: "\<And>k. k < 26 \<Longrightarrow> bck ! unat (fwd ! k) = of_nat k"
    by (auto simp: len lf)
  have inv1: "unat (bck ! unat (fwd ! i)) = i" if "i < 26" for i
  proof -
    have "unat (of_nat i :: u32) = i mod 2 ^ LENGTH(32)" by (rule unat_of_nat)
    also have "\<dots> = i" using that by simp
    finally have "unat (of_nat i :: u32) = i" .
    with v [OF that] show ?thesis by simp
  qed
  have bij: "bij_betw (\<lambda>i. unat (fwd ! i)) {0..<26} {0..<26}"
  proof (rule bij_betwI')
    fix x y :: nat assume "x \<in> {0..<26}" "y \<in> {0..<26}"
    then have "x < length (map unat fwd)" "y < length (map unat fwd)" by (simp_all add: lf)
    from nth_eq_iff_index_eq [OF du this] this
    show "(unat (fwd ! x) = unat (fwd ! y)) = (x = y)" by simp
  next
    fix x :: nat assume "x \<in> {0..<26}"
    then have "x < length (map unat fwd)" by (simp add: lf)
    then have "map unat fwd ! x \<in> set (map unat fwd)" by (rule nth_mem)
    then show "unat (fwd ! x) \<in> {0..<26}" using \<open>x < length (map unat fwd)\<close> su by simp
  next
    fix y :: nat assume "y \<in> {0..<26}"
    then have "y \<in> set (map unat fwd)" by (simp only: su)
    then obtain x where "x < length (map unat fwd)" "map unat fwd ! x = y"
      by (auto simp: in_set_conv_nth)
    then show "\<exists>x\<in>{0..<26}. y = unat (fwd ! x)" by (auto simp: lf)
  qed
  have inv2: "unat (fwd ! unat (bck ! j)) = j" if "j < 26" for j
  proof -
    from that bij obtain i where "i < 26" "unat (fwd ! i) = j"
      unfolding bij_betw_def by (metis (no_types, lifting) atLeastLessThan_iff imageE zero_le)
    with inv1 [of i] show ?thesis by simp
  qed
  show ?thesis
    using f lf lb bij inv1 inv2 unfolding Rotor_ctor_fill fwd_def [symmetric] by simp
qed

theorem Rotor_ctor_permutation_witness:
  "length rotors_i = 26 \<and> set rotors_i = set ALPHA \<and>
   (\<exists>r. Rotor_ctor rotors_i [] 0 0 = Some r \<and>
      bij_betw (\<lambda>i. unat (shuffle_fwd r ! i)) {0..<26} {0..<26} \<and>
      unat (shuffle_bck r ! unat (shuffle_fwd r ! 3)) = 3)"
proof -
  have h1: "length rotors_i = 26" by (simp add: rotors_i_def)
  have h2: "set rotors_i = set ALPHA" by (auto simp add: rotors_i_def ALPHA_def)
  from Rotor_ctor_permutation [OF h1 h2, of "[]" 0 0] h1 h2 show ?thesis by auto
qed

text \<open>
  C7 (counterexample). The constructor checks nothing. A 26-letter wiring with \<open>A\<close>
  twice and no \<open>B\<close> is accepted: the forward table has 0 at the indices 0 and 1, and the
  backward table sends 0 to 1 and keeps its initial 0 at index 1. A wiring of two letters
  is accepted as a rotor of length 2.
\<close>

theorem Rotor_ctor_accepts_malformed:
  "Rotor_ctor ''AACDEFGHIJKLMNOPQRSTUVWXYZ'' [] 0 0 =
     Some \<lparr>shuffle_fwd = [0, 0, 2, 3, 4, 5, 6, 7, 8, 9, 10, 11, 12, 13, 14, 15, 16, 17, 18,
                           19, 20, 21, 22, 23, 24, 25],
           shuffle_bck = [1, 0, 2, 3, 4, 5, 6, 7, 8, 9, 10, 11, 12, 13, 14, 15, 16, 17, 18,
                           19, 20, 21, 22, 23, 24, 25],
           notches = [], len = 26, pos = 0\<rparr> \<and>
   Rotor_ctor ''BA'' [] 0 0 =
     Some \<lparr>shuffle_fwd = [1, 0], shuffle_bck = [1, 0], notches = [], len = 2, pos = 0\<rparr>"
  by code_simp

text \<open>
  C7 (amended). Construction reports no error: a wiring string of any length \<open>n\<close>, a
  permutation or not, whose symbols all lie among the first \<open>n\<close> letters from \<open>A\<close> is
  accepted as a rotor of length \<open>n\<close> whose forward table is the wiring minus \<open>'A'\<close>.
  Its backward table has \<open>n\<close> entries: \<open>backward[forward[k]]\<close> is \<open>k\<close> (as an
  \<open>unsigned int\<close>) for the last index \<open>k\<close> at which each symbol stands in the wiring,
  and the entry at an index that no symbol is mapped to is 0.
\<close>

theorem Rotor_ctor_unvalidated:
  assumes "\<forall>c\<in>set shuffle. unat (wiring_index c) < length shuffle"
  shows "\<exists>bck. Rotor_ctor shuffle ns p rs =
             Some \<lparr>shuffle_fwd = map wiring_index shuffle, shuffle_bck = bck, notches = ns,
                   len = of_nat (length shuffle), pos = p\<rparr> \<and>
           length bck = length shuffle \<and>
           (\<forall>k<length shuffle.
              (\<forall>j. k < j \<and> j < length shuffle \<longrightarrow>
                   wiring_index (shuffle ! j) \<noteq> wiring_index (shuffle ! k)) \<longrightarrow>
              bck ! unat (wiring_index (shuffle ! k)) = of_nat k) \<and>
           (\<forall>j<length shuffle.
              j \<notin> (\<lambda>c. unat (wiring_index c)) ` set shuffle \<longrightarrow> bck ! j = 0)"
proof -
  let ?es = "map wiring_index shuffle"
  let ?z = "replicate (length shuffle) (0::u32)"
  from assms have "\<forall>e\<in>set ?es. unat e < length ?z" by simp
  from fill_bck_last [OF this, of 0] obtain bck where
    f: "fill_bck ?z 0 ?es = Some bck" and l: "length bck = length shuffle"
    and v: "\<And>k. k < length shuffle \<Longrightarrow>
              (\<forall>j. k < j \<and> j < length shuffle \<longrightarrow> ?es ! j \<noteq> ?es ! k) \<Longrightarrow>
              bck ! unat (?es ! k) = of_nat k"
    and u: "\<And>j. j < length shuffle \<Longrightarrow> j \<notin> unat ` set ?es \<Longrightarrow> bck ! j = ?z ! j"
    by auto
  have v': "bck ! unat (wiring_index (shuffle ! k)) = of_nat k"
    if k: "k < length shuffle"
    and late: "\<forall>j. k < j \<and> j < length shuffle \<longrightarrow>
                 wiring_index (shuffle ! j) \<noteq> wiring_index (shuffle ! k)" for k
  proof -
    from k late have "\<forall>j. k < j \<and> j < length shuffle \<longrightarrow> ?es ! j \<noteq> ?es ! k" by simp
    from v [OF k this] k show ?thesis by simp
  qed
  have u': "bck ! j = 0"
    if j: "j < length shuffle" and n: "j \<notin> (\<lambda>c. unat (wiring_index c)) ` set shuffle" for j
  proof -
    from n have "j \<notin> unat ` set ?es" by (simp add: image_image)
    from u [OF j this] j show ?thesis by simp
  qed
  from f l v' u' show ?thesis unfolding Rotor_ctor_fill by simp
qed

theorem Rotor_ctor_unvalidated_witness:
  "list_all (\<lambda>c. unat (wiring_index c) < length ''AAAB'') ''AAAB'' \<and>
   (\<exists>bck. Rotor_ctor ''AAAB'' [] 0 0 =
        Some \<lparr>shuffle_fwd = [0, 0, 0, 1], shuffle_bck = bck, notches = [],
              len = 4, pos = 0\<rparr> \<and>
      length bck = 4 \<and> bck ! 0 = 2 \<and> bck ! 1 = 3 \<and> bck ! 2 = 0 \<and> bck ! 3 = 0)"
proof -
  have h: "\<forall>c\<in>set ''AAAB''. unat (wiring_index c) < length ''AAAB''" by code_simp
  have f: "map wiring_index ''AAAB'' = [0, 0, 0, 1]" by code_simp
  have wa: "wiring_index CHR ''A'' = 0" and wb: "wiring_index CHR ''B'' = 1" by code_simp+
  from Rotor_ctor_unvalidated [OF h, of "[]" 0 0] obtain bck where
    b: "Rotor_ctor ''AAAB'' [] 0 0 =
          Some \<lparr>shuffle_fwd = map wiring_index ''AAAB'', shuffle_bck = bck, notches = [],
                len = of_nat (length ''AAAB''), pos = 0\<rparr>"
    and l: "length bck = length ''AAAB''"
    and v: "\<And>k. k < length ''AAAB'' \<Longrightarrow>
              (\<forall>j. k < j \<and> j < length ''AAAB'' \<longrightarrow>
                   wiring_index (''AAAB'' ! j) \<noteq> wiring_index (''AAAB'' ! k)) \<Longrightarrow>
              bck ! unat (wiring_index (''AAAB'' ! k)) = of_nat k"
    and u: "\<And>j. j < length ''AAAB'' \<Longrightarrow>
              j \<notin> (\<lambda>c. unat (wiring_index c)) ` set ''AAAB'' \<Longrightarrow> bck ! j = 0"
    by blast
  have len4: "length ''AAAB'' = 4" by simp
  from l have l4: "length bck = 4" by simp
  have n: "(of_nat (length ''AAAB'') :: size_type) = 4" by simp
  have "\<forall>j. 2 < j \<and> j < length ''AAAB'' \<longrightarrow>
          wiring_index (''AAAB'' ! j) \<noteq> wiring_index (''AAAB'' ! 2)"
  proof (intro allI impI)
    fix j :: nat assume "2 < j \<and> j < length ''AAAB''"
    then have "j = 3" unfolding len4 by arith
    then show "wiring_index (''AAAB'' ! j) \<noteq> wiring_index (''AAAB'' ! 2)"
      by (simp add: wa wb numeral_2_eq_2 numeral_3_eq_3)
  qed
  from v [of 2, OF _ this] have b0: "bck ! 0 = 2" by (simp add: wa numeral_2_eq_2)
  have "\<forall>j. 3 < j \<and> j < length ''AAAB'' \<longrightarrow>
          wiring_index (''AAAB'' ! j) \<noteq> wiring_index (''AAAB'' ! 3)"
  proof (intro allI impI)
    fix j :: nat assume "3 < j \<and> j < length ''AAAB''"
    then have False unfolding len4 by arith
    then show "wiring_index (''AAAB'' ! j) \<noteq> wiring_index (''AAAB'' ! 3)" ..
  qed
  from v [of 3, OF _ this] have b1: "bck ! 1 = 3" by (simp add: wb numeral_3_eq_3)
  have b2: "bck ! 2 = 0" by (rule u) (simp_all add: wa wb)
  have b3: "bck ! 3 = 0" by (rule u) (simp_all add: wa wb)
  from h have a: "list_all (\<lambda>c. unat (wiring_index c) < length ''AAAB'') ''AAAB''"
    by (simp only: list_all_iff)
  from b have "Rotor_ctor ''AAAB'' [] 0 0 =
        Some \<lparr>shuffle_fwd = [0, 0, 0, 1], shuffle_bck = bck, notches = [],
              len = 4, pos = 0\<rparr>"
    by (simp only: f n)
  with l4 a b0 b1 b2 b3 show ?thesis by blast
qed

section \<open>The entry point\<close>

lemma loop_body_ok:
  assumes "machine_ok m" "c \<in> set ALPHA"
  shows "\<exists>m' d. keydown m = Some m' \<and> machine_ok m' \<and> cipher_one m' c = Some d \<and> loop_body m c = Some (m', d)"
proof -
  from keydown_ok [OF assms(1)] obtain m' where k: "keydown m = Some m'" "machine_ok m'" by blast
  from cipher_one_ok [OF k(2) assms(2)] obtain d where "cipher_one m' c = Some d" by blast
  with k show ?thesis by (simp add: loop_body_def)
qed

lemma read_loop_trace:
  assumes "machine_ok m" "set xs \<subseteq> set ALPHA" "c' \<in> set ALPHA"
  shows "\<exists>tr. read_loop m (Some c') xs = Some tr \<and> length tr = Suc (length xs) \<and>
          (\<forall>n\<le>length xs. keydown_n (Suc n) m = Some (fst (tr ! n)) \<and>
             cipher_one (fst (tr ! n)) ((xs @ [last (c' # xs)]) ! n) = Some (snd (tr ! n)))"
  using assms
proof (induction xs arbitrary: m c')
  case Nil
  from loop_body_ok [OF Nil(1) Nil(3)] obtain m' d where
    "keydown m = Some m'" "cipher_one m' c' = Some d" "loop_body m c' = Some (m', d)" by blast
  then show ?case by simp
next
  case (Cons x xs)
  from Cons.prems have x: "x \<in> set ALPHA" and xs: "set xs \<subseteq> set ALPHA" by simp_all
  from loop_body_ok [OF Cons.prems(1) x] obtain m' d where
    s: "keydown m = Some m'" "machine_ok m'" "cipher_one m' x = Some d" "loop_body m x = Some (m', d)"
    by blast
  from Cons.IH [OF s(2) xs x] obtain tr where
    tr: "read_loop m' (Some x) xs = Some tr" "length tr = Suc (length xs)"
    and st: "\<And>n. n \<le> length xs \<Longrightarrow> keydown_n (Suc n) m' = Some (fst (tr ! n)) \<and>
             cipher_one (fst (tr ! n)) ((xs @ [last (x # xs)]) ! n) = Some (snd (tr ! n))"
    by blast
  have r: "read_loop m c (x # xs) = Some ((m', d) # tr)" for c using s(4) tr(1) by simp
  have "keydown_n (Suc n) m = Some (fst (((m', d) # tr) ! n)) \<and>
        cipher_one (fst (((m', d) # tr) ! n)) (((x # xs) @ [last (c' # x # xs)]) ! n)
          = Some (snd (((m', d) # tr) ! n))" if "n \<le> length (x # xs)" for n
  proof (cases n)
    case 0
    then show ?thesis using s by simp
  next
    case (Suc k)
    with that have "k \<le> length xs" by simp
    from st [OF this] show ?thesis using Suc s(1) by simp
  qed
  then show ?case using r tr(2) by simp
qed

text \<open>
  C10. \<open>main\<close> calls \<open>keydown\<close> once before the loop and once in every iteration, before
  the character is enciphered. For an input of alphabet characters, the run returns; the
  character of index \<open>n\<close> (the first has index 0) is enciphered in the state that
  \<open>n + 2\<close> calls of \<open>keydown\<close> make of the constructed machine, which is also the state
  after that iteration: the first character is enciphered after two steps, and after
  \<open>n + 1\<close> processed characters the stack has been stepped \<open>n + 2\<close> times. The loop runs
  once more after the last character (index \<open>length input\<close> of the result): the failed
  extraction leaves the last character in \<open>c\<close>, and it is enciphered again, one step
  further.
\<close>

theorem main_steps:
  assumes "input \<noteq> []" and "set input \<subseteq> set ALPHA"
  shows "\<exists>tr. main input = Some tr \<and> length tr = Suc (length input) \<and>
          (\<forall>n\<le>length input. keydown_n (n + 2) machine0 = Some (fst (tr ! n)) \<and>
             cipher_one (fst (tr ! n)) ((input @ [last input]) ! n) = Some (snd (tr ! n)))"
proof -
  from keydown_ok [OF machine0_ok] obtain m1 where m1: "keydown machine0 = Some m1" "machine_ok m1"
    by blast
  from assms(1) obtain x xs where i: "input = x # xs" by (cases input) auto
  with assms(2) have x: "x \<in> set ALPHA" by simp
  have e: "read_loop m1 None input = read_loop m1 (Some x) input" unfolding i by simp
  from read_loop_trace [OF m1(2) assms(2) x] obtain tr where
    tr: "read_loop m1 (Some x) input = Some tr" "length tr = Suc (length input)"
    and st: "\<And>n. n \<le> length input \<Longrightarrow> keydown_n (Suc n) m1 = Some (fst (tr ! n)) \<and>
             cipher_one (fst (tr ! n)) ((input @ [last (x # input)]) ! n) = Some (snd (tr ! n))"
    by blast
  have l: "last (x # input) = last input" using assms(1) by simp
  have m: "main input = Some tr"
    using m1(1) tr(1) e by (simp add: main_def EnigmaMachine_ctor_machine0)
  have k: "keydown_n (n + 2) machine0 = keydown_n (Suc n) m1" for n using m1(1) by simp
  show ?thesis using m tr(2) st unfolding l k by blast
qed

theorem main_steps_witness:
  "''AB'' \<noteq> [] \<and> set ''AB'' \<subseteq> set ALPHA \<and>
   (\<exists>tr. main ''AB'' = Some tr \<and> length tr = 3 \<and>
      keydown_n 2 machine0 = Some (fst (tr ! 0)) \<and> cipher_one (fst (tr ! 0)) CHR ''A'' = Some (snd (tr ! 0)) \<and>
      keydown_n 3 machine0 = Some (fst (tr ! 1)) \<and> cipher_one (fst (tr ! 1)) CHR ''B'' = Some (snd (tr ! 1)))"
proof -
  have h1: "''AB'' \<noteq> []" by simp
  have h2: "set ''AB'' \<subseteq> set ALPHA" by (simp add: ALPHA_def)
  from main_steps [OF h1 h2] obtain tr where
    tr: "main ''AB'' = Some tr" "length tr = Suc (length ''AB'')"
    and st: "\<And>n. n \<le> length ''AB'' \<Longrightarrow> keydown_n (n + 2) machine0 = Some (fst (tr ! n)) \<and>
             cipher_one (fst (tr ! n)) ((''AB'' @ [last ''AB'']) ! n) = Some (snd (tr ! n))"
    by blast
  from st [of 0] st [of 1] tr h2 show ?thesis by (simp add: numeral_2_eq_2 numeral_3_eq_3)
qed

section \<open>Where stepping and the round trips are right\<close>

text \<open>
  Away from the wrap-around \<open>rotate\<close> decrements the position by the turnover; from
  position 0 with turnover 1 a rotor of length 26 always lands on position 15.
\<close>

lemma rotate_rotor_no_wrap:
  assumes "rotor_ok r" and "ucast t \<le> pos r" and "pos r < 26"
  shows "rotate_rotor r t = Some (notches r ! unat (pos r - ucast t), r\<lparr>pos := pos r - ucast t\<rparr>)"
proof -
  have "pos r - ucast t \<le> pos r" using assms(2) by (simp add: word_sub_le)
  with assms(3) have "pos r - ucast t < 26" by simp
  then have "(pos r - ucast t) mod 26 = pos r - ucast t" by (rule mod_word_less)
  with rotate_rotor_ok [OF assms(1), of t] show ?thesis by simp
qed

lemma rotate_rotor_wrap:
  assumes "rotor_ok r" and "pos r = 0"
  shows "rotate_rotor r 1 = Some (notches r ! 15, r\<lparr>pos := 15\<rparr>)"
proof -
  have "(0 - ucast (1::u32) :: size_type) mod 26 = 15" by simp
  with rotate_rotor_ok [OF assms(1), of 1] assms(2) show ?thesis by simp
qed

text \<open>
  With every position at 0, as constructed, the round trip through the first rotor is the
  identity on the 26 indices and \<open>cipher_one\<close> is its own inverse on the alphabet.
\<close>

lemma rotor_round_trip_at_zero:
  "list_all (\<lambda>x. (connect_fwd (rotor_I 0) x \<bind> connect_bck (rotor_I 0)) = Some x)
     (map of_nat [0..<26])"
  by code_simp

lemma cipher_one_reciprocal_at_zero:
  "list_all (\<lambda>c. (cipher_one machine0 c \<bind> cipher_one machine0) = Some c) ALPHA"
  by code_simp

end
